theory Spec2Isabelle
  imports Main "HOL-Library.Word"
begin

section \<open>The backend object (backend/backendobject.cpp)\<close>

text \<open>
  \<open>BackendObject\<close> is a QObject with two private members, \<open>m_message\<close> (a QString) and
  \<open>m_count\<close> (an \<open>int\<close>: the getter returns \<open>int\<close> and the setter takes one), and three
  signals, \<open>messageChanged\<close>, \<open>countChanged\<close> and \<open>sendToFrontend\<close>.

  A QString is modelled as a \<open>string\<close>, the C++ \<open>int\<close> as a 32-bit word read in two's
  complement by \<open>sint\<close>. The addition in \<open>incrementCount\<close> overflows when the counter
  is \<open>INT_MAX\<close>: C++ leaves the result undefined, and the model takes the wrap-around of
  the machine's two's complement addition, which \<open>+\<close> on words is. Whatever the result,
  it is an \<open>int\<close>, and no \<open>int\<close> is \<open>INT_MAX + 1\<close>.
\<close>

type_synonym QString = string
type_synonym cint = "32 word"

datatype signal =
    messageChanged QString
  | countChanged cint
  | sendToFrontend QString

text \<open>
  \<open>emit\<close> calls the receivers connected to the signal, one emission after the other. The
  model keeps the emissions of an object in a log, oldest first: field \<open>emitted\<close>.
\<close>

record BackendObject =
  m_message :: QString
  m_count :: cint
  emitted :: "signal list"

definition emit :: "signal \<Rightarrow> BackendObject \<Rightarrow> BackendObject" where
  "emit sg b = b\<lparr>emitted := emitted b @ [sg]\<rparr>"

text \<open>
  \<open>QString::arg\<close> belongs to Qt: it returns a copy of the format in which the place marker
  is replaced by the argument. The one format string of this program holds the one marker
  \<open>%1\<close>; the model replaces that marker wherever it stands and copies every other character.
\<close>

fun arg :: "QString \<Rightarrow> QString \<Rightarrow> QString" where
  "arg [] a = []"
| "arg [c] a = [c]"
| "arg (c # d # fmt) a =
     (if c = CHR ''%'' \<and> d = CHR ''1'' then a @ arg fmt a else c # arg (d # fmt) a)"

text \<open>The constructor: \<open>m_message("Hello from C++ backend!"), m_count(0)\<close>, nothing emitted.\<close>

definition BackendObject_new :: BackendObject where
  "BackendObject_new =
     \<lparr>m_message = ''Hello from C++ backend!'', m_count = 0, emitted = []\<rparr>"

definition message :: "BackendObject \<Rightarrow> QString" where
  "message b = m_message b"

definition setMessage :: "QString \<Rightarrow> BackendObject \<Rightarrow> BackendObject" where
  "setMessage msg b =
     (if m_message b \<noteq> msg
      then (let b' = b\<lparr>m_message := msg\<rparr> in emit (messageChanged (m_message b')) b')
      else b)"

definition count :: "BackendObject \<Rightarrow> cint" where
  "count b = m_count b"

definition setCount :: "cint \<Rightarrow> BackendObject \<Rightarrow> BackendObject" where
  "setCount c b =
     (if m_count b \<noteq> c
      then (let b' = b\<lparr>m_count := c\<rparr> in emit (countChanged (m_count b')) b')
      else b)"

definition incrementCount :: "BackendObject \<Rightarrow> BackendObject" where
  "incrementCount b = setCount (m_count b + 1) b"

definition sendToBackend :: "QString \<Rightarrow> BackendObject \<Rightarrow> BackendObject" where
  "sendToBackend text b = emit (sendToFrontend (arg ''Backend received: %1'' text)) b"

text \<open>\<open>INT_MAX\<close> of a 32-bit \<open>int\<close>.\<close>

definition INT_MAX :: cint where
  "INT_MAX = 2147483647"

text \<open>
  The slots and setters as one type of operations, so that a caller (the host's own code or
  the channel) can name the one it runs.
\<close>

datatype op = SetMessage QString | SetCount cint | IncrementCount | SendToBackend QString

fun apply_op :: "op \<Rightarrow> BackendObject \<Rightarrow> BackendObject" where
  "apply_op (SetMessage msg) b = setMessage msg b"
| "apply_op (SetCount c) b = setCount c b"
| "apply_op IncrementCount b = incrementCount b"
| "apply_op (SendToBackend text) b = sendToBackend text b"

section \<open>The channel around the object (app/main.cpp and the bridge of the specification)\<close>

text \<open>
  \<open>main\<close> creates a \<open>QWebChannel\<close>, constructs one \<open>BackendObject\<close> and registers it under
  the name \<open>backend\<close>. The channel itself (registry, schema, transport, invocation and the
  renderer's side) is Qt's and the page's: none of it is among the program's sources. The definitions of
  this section follow the specification's description of it, sentence by sentence, and call
  the object's operations of the section before.
\<close>

text \<open>Modelled from the spec: the values of the shared serialization (section 6), as far as
  the object \<open>backend\<close> uses them: strings, integers, and no value for a method of type void.\<close>

datatype val = VString QString | VInt cint | VVoid

text \<open>Modelled from the spec: the error taxonomy of section 7.\<close>

datatype bridge_error =
    DuplicateNameError
  | UnknownObjectError
  | UnknownMethodError
  | ArgumentError
  | TransportClosedError
  | SerializationError

text \<open>Modelled from the spec: the Schema of section 3, a snapshot of property names with
  their values, method names and signal names.\<close>

record schema =
  properties :: "(string \<times> val) list"
  methods :: "string list"
  signals :: "string list"

text \<open>Modelled from the spec: the Message of sections 3 and 6. The request id is a natural
  number here (the envelope writes it as a string).\<close>

datatype message =
    init_request
  | init_response "(string \<times> schema) list"
  | invoke_request string string "val list" nat
  | invoke_response nat "bridge_error + val"
  | property_changed string string val
  | signal_emitted string string "val list"

text \<open>Modelled from the spec: the host's Object Registry of section 4.1, a mapping from
  object name to the native object. The C++ registry holds a pointer to the one object; the
  model holds the object's state, and \<open>store\<close> writes it back after an operation.\<close>

type_synonym registry = "(string \<times> BackendObject) list"

text \<open>Modelled from the spec: \<open>register(name, object)\<close> fails with DuplicateNameError if
  the name is already registered (section 4.1).\<close>

definition register_object ::
  "string \<Rightarrow> BackendObject \<Rightarrow> registry \<Rightarrow> bridge_error + registry" where
  "register_object name obj reg =
     (if name \<in> fst ` set reg then Inl DuplicateNameError else Inr (reg @ [(name, obj)]))"

text \<open>Modelled from the spec: \<open>lookup(name)\<close> returns the object or fails with
  UnknownObjectError (section 4.1).\<close>

definition lookup :: "string \<Rightarrow> registry \<Rightarrow> bridge_error + BackendObject" where
  "lookup name reg =
     (case map_of reg name of None \<Rightarrow> Inl UnknownObjectError | Some b \<Rightarrow> Inr b)"

text \<open>Modelled from the spec: the registered object after an operation has changed it;
  the other entries of the registry stay as they are.\<close>

definition store :: "string \<Rightarrow> BackendObject \<Rightarrow> registry \<Rightarrow> registry" where
  "store name b reg = map (\<lambda>(n, old). if n = name then (n, b) else (n, old)) reg"

text \<open>
  \<open>main\<close>, lines 57 to 59: \<open>QWebChannel channel; BackendObject backend;
  channel.registerObject(QStringLiteral("backend"), &backend);\<close>
\<close>

definition main_registry :: "bridge_error + registry" where
  "main_registry = register_object ''backend'' BackendObject_new []"

text \<open>Modelled from the spec: the Descriptor Builder of section 4.2 for the object of section
  6 (properties \<open>message\<close> and \<open>count\<close>, methods \<open>incrementCount\<close> and \<open>sendToBackend\<close>, three
  signals); backendobject.h, which declares them, is not among the sources. The schema holds the
  current value of every property, read through the getters of the source.\<close>

definition describe :: "BackendObject \<Rightarrow> schema" where
  "describe b =
     \<lparr>properties = [(''message'', VString (message b)), (''count'', VInt (count b))],
      methods = [''incrementCount'', ''sendToBackend''],
      signals = [''messageChanged'', ''countChanged'', ''sendToFrontend'']\<rparr>"

text \<open>Modelled from the spec: host-side Change Propagation (section 4.4). A change of a
  property is pushed as a property-changed message, an emitted signal as a signal-emitted
  message.\<close>

fun notify :: "string \<Rightarrow> signal \<Rightarrow> message" where
  "notify name (messageChanged m) = property_changed name ''message'' (VString m)"
| "notify name (countChanged c) = property_changed name ''count'' (VInt c)"
| "notify name (sendToFrontend t) = signal_emitted name ''sendToFrontend'' [VString t]"

text \<open>Modelled from the spec: the messages enqueued for what an operation emitted, in the
  order of emission: \<open>b\<close> is the object before the operation, \<open>b'\<close> the object after it.\<close>

definition published :: "string \<Rightarrow> BackendObject \<Rightarrow> BackendObject \<Rightarrow> message list" where
  "published name b b' = map (notify name) (drop (length (emitted b)) (emitted b'))"

text \<open>Modelled from the spec: resolving the method by name (UnknownMethodError if absent)
  and checking the arguments (ArgumentError if arity or type mismatch), section 4.3, for the
  methods \<open>incrementCount()\<close> and \<open>sendToBackend(text: string)\<close> of section 6.\<close>

definition resolve_method :: "string \<Rightarrow> val list \<Rightarrow> bridge_error + op" where
  "resolve_method meth args =
     (if meth = ''incrementCount'' then
        (case args of [] \<Rightarrow> Inr IncrementCount | _ \<Rightarrow> Inl ArgumentError)
      else if meth = ''sendToBackend'' then
        (case args of [VString t] \<Rightarrow> Inr (SendToBackend t) | _ \<Rightarrow> Inl ArgumentError)
      else Inl UnknownMethodError)"

text \<open>Modelled from the spec: the host side of the Descriptor Builder and of the Invocation
  Engine (sections 4.2 and 4.3). An init-request is answered by one init-response with the
  schemas of all registered objects. An invoke-request is answered by one invoke-response
  with the request's id, which carries the return value or the error; what the invocation
  emitted is enqueued before the response. The result is the registry after the message and
  the messages enqueued for the renderer.\<close>

fun host_receive :: "message \<Rightarrow> registry \<Rightarrow> registry \<times> message list" where
  "host_receive init_request reg =
     (reg, [init_response (map (\<lambda>(n, b). (n, describe b)) reg)])"
| "host_receive (invoke_request obj meth args rid) reg =
     (case lookup obj reg of
        Inl e \<Rightarrow> (reg, [invoke_response rid (Inl e)])
      | Inr b \<Rightarrow>
          (case resolve_method meth args of
             Inl e \<Rightarrow> (reg, [invoke_response rid (Inl e)])
           | Inr f \<Rightarrow>
               (let b' = apply_op f b
                in (store obj b' reg, published obj b b' @ [invoke_response rid (Inr VVoid)]))))"
| "host_receive _ reg = (reg, [])"

text \<open>Modelled from the spec: the host's own code runs an operation of a registered object
  (section 5: mutation rights rest with host-side application code); what it emits is
  enqueued for the renderer.\<close>

definition host_apply :: "string \<Rightarrow> op \<Rightarrow> registry \<Rightarrow> registry \<times> message list" where
  "host_apply name f reg =
     (case lookup name reg of
        Inl e \<Rightarrow> (reg, [])
      | Inr b \<Rightarrow> (let b' = apply_op f b in (store name b' reg, published name b b')))"

text \<open>Modelled from the spec: the renderer's side (sections 3, 4.3 and 4.4): the next fresh
  request id, the pending-result entries, the results handed to the suspended callers, the
  proxies' property cache, and the notifications handed to listeners, oldest first.\<close>

record renderer =
  next_id :: nat
  pending :: "nat list"
  outcomes :: "(nat \<times> (bridge_error + val)) list"
  cache :: "((string \<times> string) \<times> val) list"
  notified :: "message list"

text \<open>Modelled from the spec: the renderer before anything has happened: no call issued,
  no proxy built, no listener notified.\<close>

definition renderer_new :: renderer where
  "renderer_new = \<lparr>next_id = 0, pending = [], outcomes = [], cache = [], notified = []\<rparr>"

text \<open>Modelled from the spec: issuing a call allocates a fresh unique request-id and
  registers a pending-result entry (section 4.3). The result is the invoke-request to send
  and the renderer after it.\<close>

definition issue_call ::
  "string \<Rightarrow> string \<Rightarrow> val list \<Rightarrow> renderer \<Rightarrow> message \<times> renderer" where
  "issue_call obj meth args r =
     (invoke_request obj meth args (next_id r),
      r\<lparr>next_id := Suc (next_id r), pending := pending r @ [next_id r]\<rparr>)"

text \<open>Modelled from the spec: the renderer on an incoming message (sections 4.3 and 4.4). An
  init-response fills the proxies' cache; a property-changed updates the cached value and
  notifies the listeners; a signal-emitted notifies the listeners and leaves the cache; an
  invoke-response resolves the pending entry of its id; a response whose id has no pending
  entry resolves nothing.\<close>

fun renderer_receive :: "message \<Rightarrow> renderer \<Rightarrow> renderer" where
  "renderer_receive (init_response schemas) r =
     r\<lparr>cache := concat (map (\<lambda>(n, sc). map (\<lambda>(p, v). ((n, p), v)) (properties sc)) schemas)\<rparr>"
| "renderer_receive (property_changed obj p v) r =
     r\<lparr>cache := ((obj, p), v) # cache r, notified := notified r @ [property_changed obj p v]\<rparr>"
| "renderer_receive (signal_emitted obj sg args) r =
     r\<lparr>notified := notified r @ [signal_emitted obj sg args]\<rparr>"
| "renderer_receive (invoke_response rid res) r =
     (if rid \<in> set (pending r)
      then r\<lparr>pending := removeAll rid (pending r), outcomes := outcomes r @ [(rid, res)]\<rparr>
      else r)"
| "renderer_receive _ r = r"

text \<open>Modelled from the spec: a transport teardown while calls are pending resolves all
  pending entries with a TransportClosedError (section 4.3).\<close>

definition transport_closed :: "renderer \<Rightarrow> renderer" where
  "transport_closed r =
     r\<lparr>pending := [],
       outcomes := outcomes r @ map (\<lambda>rid. (rid, Inl TransportClosedError)) (pending r)\<rparr>"

text \<open>Modelled from the spec: host, renderer and the Message Transport between them
  (section 2): one queue per direction, each delivered in order, the two independent of each
  other.\<close>

record bridge =
  host_registry :: registry
  to_host :: "message list"
  to_renderer :: "message list"
  rend :: renderer
  torn_down :: bool

text \<open>Modelled from the spec: the bridge at setup, after the objects are registered and
  before the first init-request: both queues empty, the transport up.\<close>

definition bridge_init :: "registry \<Rightarrow> bridge" where
  "bridge_init reg =
     \<lparr>host_registry = reg, to_host = [], to_renderer = [], rend = renderer_new,
      torn_down = False\<rparr>"

text \<open>Modelled from the spec: what can happen on the bridge. The renderer requests
  initialization or issues a call; the host's own code runs an operation; the host takes the
  next message of its queue; the renderer takes the next message of its queue; the transport
  is torn down. A teardown drops what is in flight and resolves the pending calls; after it
  nothing is carried any more.\<close>

datatype event =
    Init
  | Call string string "val list"
  | HostCode string op
  | HostStep
  | RendererStep
  | Teardown

definition step :: "event \<Rightarrow> bridge \<Rightarrow> bridge" where
  "step e s =
     (if torn_down s then s
      else
        (case e of
           Init \<Rightarrow> s\<lparr>to_host := to_host s @ [init_request]\<rparr>
         | Call obj meth args \<Rightarrow>
             (let (m, r) = issue_call obj meth args (rend s)
              in s\<lparr>to_host := to_host s @ [m], rend := r\<rparr>)
         | HostCode name f \<Rightarrow>
             (let (reg, out) = host_apply name f (host_registry s)
              in s\<lparr>host_registry := reg, to_renderer := to_renderer s @ out\<rparr>)
         | HostStep \<Rightarrow>
             (case to_host s of
                [] \<Rightarrow> s
              | m # q \<Rightarrow>
                  (let (reg, out) = host_receive m (host_registry s)
                   in s\<lparr>host_registry := reg, to_host := q,
                        to_renderer := to_renderer s @ out\<rparr>))
         | RendererStep \<Rightarrow>
             (case to_renderer s of
                [] \<Rightarrow> s
              | m # q \<Rightarrow> s\<lparr>to_renderer := q, rend := renderer_receive m (rend s)\<rparr>)
         | Teardown \<Rightarrow>
             s\<lparr>to_host := [], to_renderer := [], rend := transport_closed (rend s),
               torn_down := True\<rparr>))"

text \<open>Modelled from the spec: a sequence of events, the first one first.\<close>

fun run :: "event list \<Rightarrow> bridge \<Rightarrow> bridge" where
  "run [] s = s"
| "run (e # es) s = run es (step e s)"

text \<open>Modelled from the spec: the host takes every message that is in its queue, one
  after the other (the transport processes incoming messages one at a time in arrival
  order, section 5).\<close>

definition host_drain :: "bridge \<Rightarrow> bridge" where
  "host_drain s = run (replicate (length (to_host s)) HostStep) s"

text \<open>Modelled from the spec: the renderer takes every message that is in its queue, one
  after the other.\<close>

definition renderer_drain :: "bridge \<Rightarrow> bridge" where
  "renderer_drain s = run (replicate (length (to_renderer s)) RendererStep) s"

text \<open>Modelled from the spec: the bridge left alone until both queues are empty: first the
  host empties its queue, then the renderer its own.\<close>

definition settle :: "bridge \<Rightarrow> bridge" where
  "settle s = renderer_drain (host_drain s)"

text \<open>The request ids of the invoke-requests, and of the invoke-responses, of a queue.\<close>

fun req_ids :: "message list \<Rightarrow> nat list" where
  "req_ids [] = []"
| "req_ids (invoke_request obj meth args rid # ms) = rid # req_ids ms"
| "req_ids (m # ms) = req_ids ms"

fun resp_ids :: "message list \<Rightarrow> nat list" where
  "resp_ids [] = []"
| "resp_ids (invoke_response rid res # ms) = rid # resp_ids ms"
| "resp_ids (m # ms) = resp_ids ms"

text \<open>The results that the callers of request \<open>rid\<close> were handed.\<close>

definition outcomes_of :: "nat \<Rightarrow> bridge \<Rightarrow> (bridge_error + val) list" where
  "outcomes_of rid s = map snd (filter (\<lambda>x. fst x = rid) (outcomes (rend s)))"

text \<open>The results carried by the invoke-responses of a queue.\<close>

fun resp_results :: "message list \<Rightarrow> (bridge_error + val) list" where
  "resp_results [] = []"
| "resp_results (invoke_response rid res # ms) = res # resp_results ms"
| "resp_results (m # ms) = resp_results ms"

text \<open>The messages of Change Propagation: property-changed and signal-emitted.\<close>

fun is_notification :: "message \<Rightarrow> bool" where
  "is_notification (property_changed obj p v) = True"
| "is_notification (signal_emitted obj sg args) = True"
| "is_notification m = False"

text \<open>
  Two invariants of the bridge. While the transport is up, no invoke-response on its way and
  no result handed to a caller is a TransportClosedError: the host never answers with it.
\<close>

definition answers_inv :: "bridge \<Rightarrow> bool" where
  "answers_inv s \<longleftrightarrow>
     torn_down s \<or>
     Inl TransportClosedError \<notin>
       set (resp_results (to_renderer s)) \<union> snd ` set (outcomes (rend s))"

text \<open>
  Every request id allocated so far is, exactly once, either in an invoke-request on its way
  to the host, or in an invoke-response on its way to the renderer, or with a result handed
  to its caller; the pending entries are the ids of the first two kinds; a torn down
  transport carries nothing.
\<close>

definition bridge_inv :: "bridge \<Rightarrow> bool" where
  "bridge_inv s \<longleftrightarrow>
     distinct (req_ids (to_host s) @ resp_ids (to_renderer s) @ map fst (outcomes (rend s))) \<and>
     set (req_ids (to_host s) @ resp_ids (to_renderer s) @ map fst (outcomes (rend s)))
       = {..<next_id (rend s)} \<and>
     distinct (pending (rend s)) \<and>
     set (pending (rend s)) = set (req_ids (to_host s) @ resp_ids (to_renderer s)) \<and>
     (torn_down s \<longrightarrow> to_host s = [] \<and> to_renderer s = [])"

section \<open>Setters and slots\<close>

lemma arg_format: "arg ''Backend received: %1'' text = ''Backend received: '' @ text"
  by simp

lemma setMessage_changed:
  "m_message b \<noteq> msg \<Longrightarrow>
     setMessage msg b = b\<lparr>m_message := msg, emitted := emitted b @ [messageChanged msg]\<rparr>"
  by (simp add: setMessage_def emit_def)

lemma setMessage_same: "m_message b = msg \<Longrightarrow> setMessage msg b = b"
  by (simp add: setMessage_def)

lemma setCount_changed:
  "m_count b \<noteq> c \<Longrightarrow>
     setCount c b = b\<lparr>m_count := c, emitted := emitted b @ [countChanged c]\<rparr>"
  by (simp add: setCount_def emit_def)

lemma setCount_same: "m_count b = c \<Longrightarrow> setCount c b = b"
  by (simp add: setCount_def)

lemma succ_differs: "(x :: cint) + 1 \<noteq> x"
  by simp

lemma incrementCount_eq:
  "incrementCount b =
     b\<lparr>m_count := m_count b + 1, emitted := emitted b @ [countChanged (m_count b + 1)]\<rparr>"
  by (simp add: incrementCount_def setCount_changed)

lemma sendToBackend_eq:
  "sendToBackend text b =
     b\<lparr>emitted := emitted b @ [sendToFrontend (''Backend received: '' @ text)]\<rparr>"
  by (simp only: sendToBackend_def arg_format emit_def)

text \<open>
  Claim C1. A setter called with a value that differs from the stored one stores the new
  value and emits exactly one change notification, which carries the new value: the log of
  emissions grows by the one entry \<open>messageChanged msg\<close>, respectively \<open>countChanged c\<close>.
\<close>

theorem setter_changed_updates_and_notifies_once:
  "(m_message b \<noteq> msg \<longrightarrow>
      message (setMessage msg b) = msg \<and>
      emitted (setMessage msg b) = emitted b @ [messageChanged msg]) \<and>
   (m_count b \<noteq> c \<longrightarrow>
      count (setCount c b) = c \<and>
      emitted (setCount c b) = emitted b @ [countChanged c])"
  by (simp add: setMessage_changed setCount_changed message_def count_def)

theorem setter_changed_updates_and_notifies_once_witness:
  "m_message BackendObject_new \<noteq> ''hi'' \<and> m_count BackendObject_new \<noteq> 5 \<and>
   message (setMessage ''hi'' BackendObject_new) = ''hi'' \<and>
   emitted (setMessage ''hi'' BackendObject_new) = [messageChanged ''hi''] \<and>
   count (setCount 5 BackendObject_new) = 5 \<and>
   emitted (setCount 5 BackendObject_new) = [countChanged 5]"
proof -
  have m: "m_message BackendObject_new \<noteq> ''hi''"
    by (simp add: BackendObject_new_def)
  have c: "m_count BackendObject_new \<noteq> 5"
    by (simp add: BackendObject_new_def)
  have e: "emitted BackendObject_new = []"
    by (simp add: BackendObject_new_def)
  from m c e
    setter_changed_updates_and_notifies_once [of BackendObject_new "''hi''" 5]
  show ?thesis by simp
qed

lemma sint_succ:
  assumes "(x :: cint) \<noteq> INT_MAX"
  shows "sint (x + 1) = sint x + 1"
proof -
  have up: "sint x < 2 ^ 31"
    using sint_lt [of x] by simp
  have lo: "- (2 ^ 31) \<le> sint x"
    using sint_ge [of x] by simp
  have "sint x \<noteq> 2147483647"
  proof
    assume "sint x = 2147483647"
    then have "sint x = sint INT_MAX"
      by (simp add: INT_MAX_def)
    then have "x = INT_MAX"
      by (rule signed_word_eqI)
    with assms show False by simp
  qed
  with up lo have "- (2 ^ 31) \<le> sint x + 1 \<and> sint x + 1 < 2 ^ 31"
    by simp
  then have "signed_take_bit 31 (sint x + 1) = sint x + 1"
    by (simp add: signed_take_bit_int_eq_self)
  then show ?thesis
    by (simp add: sint_word_ariths)
qed

lemma sendToBackend_all:
  "emitted (foldl (\<lambda>b t. sendToBackend t b) b ts) =
     emitted b @ map (\<lambda>t. sendToFrontend (''Backend received: '' @ t)) ts"
  by (induction ts arbitrary: b) (simp_all add: sendToBackend_eq)

text \<open>
  Claim C2. A setter called with the value that is already stored leaves the object as it
  is: nothing is stored and nothing is emitted. So a second \<open>setCount c\<close> right after a first
  one adds nothing, and two calls in a row from a state whose count is not yet \<open>c\<close> (as
  \<open>setCount 5\<close> on the fresh object) emit \<open>countChanged c\<close> once, not twice.
\<close>

theorem setter_same_value_is_silent:
  "(m_message b = msg \<longrightarrow> setMessage msg b = b) \<and>
   (m_count b = c \<longrightarrow> setCount c b = b) \<and>
   setCount c (setCount c b) = setCount c b \<and>
   (m_count b \<noteq> c \<longrightarrow>
      emitted (setCount c (setCount c b)) = emitted b @ [countChanged c])"
  by (simp add: setMessage_same setCount_def emit_def)

theorem setter_same_value_is_silent_witness:
  "m_message BackendObject_new = ''Hello from C++ backend!'' \<and>
   m_count BackendObject_new = 0 \<and> m_count BackendObject_new \<noteq> 5 \<and>
   setMessage ''Hello from C++ backend!'' BackendObject_new = BackendObject_new \<and>
   setCount 0 BackendObject_new = BackendObject_new \<and>
   emitted (setCount 5 (setCount 5 BackendObject_new)) = [countChanged 5]"
proof -
  have m: "m_message BackendObject_new = ''Hello from C++ backend!''"
    by (simp add: BackendObject_new_def)
  have c: "m_count BackendObject_new = 0"
    by (simp add: BackendObject_new_def)
  have e: "emitted BackendObject_new = []"
    by (simp add: BackendObject_new_def)
  from m c e
    setter_same_value_is_silent [of BackendObject_new "''Hello from C++ backend!''" 0]
    setter_same_value_is_silent [of BackendObject_new "''Hello from C++ backend!''" 5]
  show ?thesis by auto
qed

text \<open>
  Claim C3, as the specification states it: in every state \<open>incrementCount\<close> increases the
  stored count by exactly 1. The count is an \<open>int\<close>; once \<open>setCount\<close> has stored \<open>INT_MAX\<close>
  there is no \<open>int\<close> that is larger by 1, and the stored count after \<open>incrementCount\<close>
  is not the count before plus 1.
\<close>

theorem incrementCount_at_INT_MAX_counterexample:
  "sint (count (incrementCount (setCount INT_MAX BackendObject_new)))
     \<noteq> sint (count (setCount INT_MAX BackendObject_new)) + 1"
  by (simp add: incrementCount_eq setCount_def emit_def count_def BackendObject_new_def
      INT_MAX_def)

text \<open>
  Claim C3, amended. On the fresh object (count 0) \<open>incrementCount\<close> sets the count to 1
  and emits exactly one \<open>countChanged 1\<close>. In every state whose count is below \<open>INT_MAX\<close>
  it increases the stored count by exactly 1 and emits exactly one \<open>countChanged\<close>, which
  carries the new count.
\<close>

theorem incrementCount_adds_one:
  "count (incrementCount BackendObject_new) = 1 \<and>
   emitted (incrementCount BackendObject_new) = [countChanged 1] \<and>
   (count b \<noteq> INT_MAX \<longrightarrow>
      sint (count (incrementCount b)) = sint (count b) + 1 \<and>
      emitted (incrementCount b) = emitted b @ [countChanged (count b + 1)])"
  by (simp add: incrementCount_eq count_def sint_succ BackendObject_new_def)

theorem incrementCount_adds_one_witness:
  "count (setCount 41 BackendObject_new) \<noteq> INT_MAX \<and>
   sint (count (setCount 41 BackendObject_new)) = 41 \<and>
   sint (count (incrementCount (setCount 41 BackendObject_new))) = 42 \<and>
   emitted (incrementCount (setCount 41 BackendObject_new)) =
     [countChanged 41, countChanged 42]"
proof -
  have c: "count (setCount 41 BackendObject_new) = 41"
    and e: "emitted (setCount 41 BackendObject_new) = [countChanged 41]"
    by (simp_all add: setCount_def emit_def count_def BackendObject_new_def)
  have n: "(41 :: cint) \<noteq> INT_MAX"
    by (simp add: INT_MAX_def)
  from c e n incrementCount_adds_one [of "setCount 41 BackendObject_new"]
  show ?thesis by simp
qed

text \<open>
  Claim C4. Every call of \<open>sendToBackend\<close> emits one \<open>sendToFrontend\<close>, whatever was emitted
  before: a sequence of calls emits one signal per call, in call order, and two calls with
  the text \<open>a\<close> emit the same signal twice.
\<close>

theorem sendToBackend_not_deduplicated:
  "emitted (foldl (\<lambda>b t. sendToBackend t b) b ts) =
     emitted b @ map (\<lambda>t. sendToFrontend (''Backend received: '' @ t)) ts \<and>
   length (emitted (foldl (\<lambda>b t. sendToBackend t b) b ts)) = length (emitted b) + length ts \<and>
   emitted (sendToBackend ''a'' (sendToBackend ''a'' b)) =
     emitted b @ [sendToFrontend ''Backend received: a'', sendToFrontend ''Backend received: a'']"
proof (intro conjI)
  show "emitted (foldl (\<lambda>b t. sendToBackend t b) b ts) =
     emitted b @ map (\<lambda>t. sendToFrontend (''Backend received: '' @ t)) ts"
    by (rule sendToBackend_all)
  then show "length (emitted (foldl (\<lambda>b t. sendToBackend t b) b ts)) =
     length (emitted b) + length ts"
    by (simp only: length_append length_map)
  show "emitted (sendToBackend ''a'' (sendToBackend ''a'' b)) =
     emitted b @ [sendToFrontend ''Backend received: a'', sendToFrontend ''Backend received: a'']"
    by (simp add: sendToBackend_eq)
qed

text \<open>
  Claim C9. For every text and in every state, \<open>sendToBackend text\<close> emits
  \<open>sendToFrontend\<close> with the string \<open>Backend received: \<close> followed by the text, which is
  never the text itself.
\<close>

theorem sendToBackend_prefixes_text:
  "emitted (sendToBackend text b) =
     emitted b @ [sendToFrontend (''Backend received: '' @ text)] \<and>
   ''Backend received: '' @ text \<noteq> text"
  by (simp add: sendToBackend_eq)

text \<open>
  Claim C10. \<open>setCount\<close> and \<open>incrementCount\<close> leave the message as it is, \<open>setMessage\<close>
  leaves the count as it is, and \<open>sendToBackend\<close> leaves both as they are.
\<close>

theorem operations_frame:
  "message (setCount c b) = message b \<and>
   message (incrementCount b) = message b \<and>
   count (setMessage msg b) = count b \<and>
   message (sendToBackend text b) = message b \<and>
   count (sendToBackend text b) = count b"
  by (simp add: message_def count_def setCount_def setMessage_def incrementCount_def
      sendToBackend_def emit_def)

section \<open>The bridge: queues, request ids and invariants\<close>

lemma req_ids_append: "req_ids (xs @ ys) = req_ids xs @ req_ids ys"
  by (induction xs rule: req_ids.induct) simp_all

lemma resp_ids_append: "resp_ids (xs @ ys) = resp_ids xs @ resp_ids ys"
  by (induction xs rule: resp_ids.induct) simp_all

lemma resp_ids_notify: "resp_ids (map (notify name) sgs) = []"
proof (induction sgs)
  case Nil
  show ?case by simp
next
  case (Cons sg sgs)
  then show ?case by (cases sg) simp_all
qed

lemma resp_ids_published: "resp_ids (published name b b') = []"
  by (simp add: published_def resp_ids_notify)

lemma host_receive_answers: "resp_ids (snd (host_receive m reg)) = req_ids [m]"
  by (cases m) (simp_all add: resp_ids_append resp_ids_published Let_def split: sum.splits)

lemma host_apply_silent: "resp_ids (snd (host_apply name f reg)) = []"
  by (simp add: host_apply_def resp_ids_published Let_def split: sum.splits)

lemma bridge_inv_init: "bridge_inv (bridge_init reg)"
  by (simp add: bridge_inv_def bridge_init_def renderer_new_def)

lemma step_torn_down: "torn_down s \<Longrightarrow> step e s = s"
  by (simp add: step_def)

lemma run_torn_down: "torn_down s \<Longrightarrow> run es s = s"
  by (induction es) (simp_all add: step_torn_down)

lemma step_open:
  "\<not> torn_down s \<Longrightarrow>
     step e s =
       (case e of
           Init \<Rightarrow> s\<lparr>to_host := to_host s @ [init_request]\<rparr>
         | Call obj meth args \<Rightarrow>
             (let (m, r) = issue_call obj meth args (rend s)
              in s\<lparr>to_host := to_host s @ [m], rend := r\<rparr>)
         | HostCode name f \<Rightarrow>
             (let (reg, out) = host_apply name f (host_registry s)
              in s\<lparr>host_registry := reg, to_renderer := to_renderer s @ out\<rparr>)
         | HostStep \<Rightarrow>
             (case to_host s of
                [] \<Rightarrow> s
              | m # q \<Rightarrow>
                  (let (reg, out) = host_receive m (host_registry s)
                   in s\<lparr>host_registry := reg, to_host := q,
                        to_renderer := to_renderer s @ out\<rparr>))
         | RendererStep \<Rightarrow>
             (case to_renderer s of
                [] \<Rightarrow> s
              | m # q \<Rightarrow> s\<lparr>to_renderer := q, rend := renderer_receive m (rend s)\<rparr>)
         | Teardown \<Rightarrow>
             s\<lparr>to_host := [], to_renderer := [], rend := transport_closed (rend s),
               torn_down := True\<rparr>)"
  by (simp add: step_def)

lemma inv_Init: "bridge_inv s \<Longrightarrow> \<not> torn_down s \<Longrightarrow> bridge_inv (step Init s)"
  by (simp add: step_open bridge_inv_def req_ids_append)

lemma inv_Call:
  "bridge_inv s \<Longrightarrow> \<not> torn_down s \<Longrightarrow> bridge_inv (step (Call obj meth args) s)"
  by (auto simp: step_open bridge_inv_def issue_call_def req_ids_append lessThan_Suc)

lemma inv_HostCode:
  assumes i: "bridge_inv s" and nt: "\<not> torn_down s"
  shows "bridge_inv (step (HostCode name f) s)"
proof -
  obtain reg out where h: "host_apply name f (host_registry s) = (reg, out)"
    by (cases "host_apply name f (host_registry s)")
  have "resp_ids out = []"
    using host_apply_silent [of name f "host_registry s"] h by simp
  with i h nt show ?thesis
    by (simp add: step_open bridge_inv_def resp_ids_append)
qed

lemma inv_HostStep:
  assumes i: "bridge_inv s" and nt: "\<not> torn_down s"
  shows "bridge_inv (step HostStep s)"
proof (cases "to_host s")
  case Nil
  with i nt show ?thesis by (simp add: step_open)
next
  case (Cons m q)
  obtain reg out where h: "host_receive m (host_registry s) = (reg, out)"
    by (cases "host_receive m (host_registry s)")
  have a: "resp_ids out = req_ids [m]"
    using host_receive_answers [of m "host_registry s"] h by simp
  have r: "req_ids (to_host s) = req_ids [m] @ req_ids q"
    using Cons req_ids_append [of "[m]" q] by simp
  have st: "step HostStep s = s\<lparr>host_registry := reg, to_host := q,
                        to_renderer := to_renderer s @ out\<rparr>"
    using nt Cons h by (simp add: step_open)
  from i r a nt show ?thesis
    unfolding st by (auto simp: bridge_inv_def resp_ids_append)
qed

lemma inv_RendererStep:
  assumes i: "bridge_inv s" and nt: "\<not> torn_down s"
  shows "bridge_inv (step RendererStep s)"
proof (cases "to_renderer s")
  case Nil
  with i nt show ?thesis by (simp add: step_open)
next
  case (Cons m q)
  have st: "step RendererStep s = s\<lparr>to_renderer := q, rend := renderer_receive m (rend s)\<rparr>"
    using nt Cons by (simp add: step_open)
  show ?thesis
  proof (cases m)
    case (invoke_response rid res)
    with i Cons show ?thesis
      unfolding st by (auto simp: bridge_inv_def distinct_removeAll)
  qed (use i Cons in \<open>auto simp: st bridge_inv_def\<close>)
qed

lemma inv_Teardown:
  assumes i: "bridge_inv s" and nt: "\<not> torn_down s"
  shows "bridge_inv (step Teardown s)"
proof -
  have st: "step Teardown s = s\<lparr>to_host := [], to_renderer := [],
      rend := transport_closed (rend s), torn_down := True\<rparr>"
    using nt by (simp add: step_open)
  have m: "map fst (outcomes (transport_closed (rend s))) =
      map fst (outcomes (rend s)) @ pending (rend s)"
    by (simp add: transport_closed_def comp_def)
  have n: "next_id (transport_closed (rend s)) = next_id (rend s)"
    and p: "pending (transport_closed (rend s)) = []"
    by (simp_all add: transport_closed_def)
  from i show ?thesis
    unfolding st bridge_inv_def by (auto simp: m n p)
qed

lemma inv_step: "bridge_inv s \<Longrightarrow> bridge_inv (step e s)"
proof (cases "torn_down s")
  case True
  assume "bridge_inv s"
  with True show ?thesis by (simp add: step_torn_down)
next
  case False
  assume "bridge_inv s"
  with False show ?thesis
    by (cases e)
      (simp_all add: inv_Init inv_Call inv_HostCode inv_HostStep inv_RendererStep inv_Teardown)
qed

lemma inv_run: "bridge_inv s \<Longrightarrow> bridge_inv (run es s)"
  by (induction es arbitrary: s) (simp_all add: inv_step)

lemma resp_results_append: "resp_results (xs @ ys) = resp_results xs @ resp_results ys"
  by (induction xs rule: resp_results.induct) simp_all

lemma resp_results_notify: "resp_results (map (notify name) sgs) = []"
proof (induction sgs)
  case Nil
  show ?case by simp
next
  case (Cons sg sgs)
  then show ?case by (cases sg) simp_all
qed

lemma host_receive_results:
  "Inl TransportClosedError \<notin> set (resp_results (snd (host_receive m reg)))"
proof (cases m)
  case (invoke_request obj meth args rid)
  then show ?thesis
    by (auto simp: lookup_def resolve_method_def published_def resp_results_append
        resp_results_notify Let_def split: sum.splits option.splits if_splits list.splits
        val.splits)
qed simp_all

lemma host_apply_results: "resp_results (snd (host_apply name f reg)) = []"
  by (simp add: host_apply_def published_def resp_results_notify Let_def split: sum.splits)

lemma answers_inv_init: "answers_inv (bridge_init reg)"
  by (simp add: answers_inv_def bridge_init_def renderer_new_def)

lemma answers_inv_step: "answers_inv s \<Longrightarrow> answers_inv (step e s)"
proof (cases "torn_down s")
  case True
  assume "answers_inv s"
  with True show ?thesis by (simp add: step_torn_down)
next
  case nt: False
  assume i: "answers_inv s"
  show ?thesis
  proof (cases e)
    case Init
    with i nt show ?thesis by (simp add: step_open answers_inv_def)
  next
    case (Call obj meth args)
    with i nt show ?thesis by (simp add: step_open answers_inv_def issue_call_def)
  next
    case (HostCode name f)
    with i nt host_apply_results [of name f "host_registry s"] show ?thesis
      by (simp add: step_open answers_inv_def resp_results_append split_beta)
  next
    case HostStep
    show ?thesis
    proof (cases "to_host s")
      case Nil
      with i nt HostStep show ?thesis by (simp add: step_open)
    next
      case (Cons m q)
      with i nt HostStep host_receive_results [of m "host_registry s"] show ?thesis
        by (simp add: step_open answers_inv_def resp_results_append split_beta)
    qed
  next
    case RendererStep
    show ?thesis
    proof (cases "to_renderer s")
      case Nil
      with i nt RendererStep show ?thesis by (simp add: step_open)
    next
      case (Cons m q)
      with i nt RendererStep show ?thesis
        by (cases m) (auto simp: step_open answers_inv_def)
    qed
  next
    case Teardown
    with nt show ?thesis by (simp add: step_open answers_inv_def)
  qed
qed

lemma answers_inv_run: "answers_inv s \<Longrightarrow> answers_inv (run es s)"
  by (induction es arbitrary: s) (simp_all add: answers_inv_step)

lemma run_append: "run (xs @ ys) s = run ys (run xs s)"
  by (induction xs arbitrary: s) simp_all

lemma HostStep_Cons:
  "\<not> torn_down s \<Longrightarrow> to_host s = m # q \<Longrightarrow>
     step HostStep s =
       s\<lparr>host_registry := fst (host_receive m (host_registry s)), to_host := q,
         to_renderer := to_renderer s @ snd (host_receive m (host_registry s))\<rparr>"
  by (simp add: step_open split_beta)

lemma RendererStep_Cons:
  "\<not> torn_down s \<Longrightarrow> to_renderer s = m # q \<Longrightarrow>
     step RendererStep s = s\<lparr>to_renderer := q, rend := renderer_receive m (rend s)\<rparr>"
  by (simp add: step_open)

lemma host_steps:
  "\<not> torn_down s \<Longrightarrow> length (to_host s) = n \<Longrightarrow>
     to_host (run (replicate n HostStep) s) = [] \<and>
     \<not> torn_down (run (replicate n HostStep) s) \<and>
     rend (run (replicate n HostStep) s) = rend s \<and>
     resp_ids (to_renderer (run (replicate n HostStep) s)) =
       resp_ids (to_renderer s) @ req_ids (to_host s)"
proof (induction n arbitrary: s)
  case 0
  then show ?case by simp
next
  case (Suc n)
  then obtain m q where c: "to_host s = m # q"
    by (cases "to_host s") simp_all
  let ?t = "step HostStep s"
  have st: "?t = s\<lparr>host_registry := fst (host_receive m (host_registry s)), to_host := q,
         to_renderer := to_renderer s @ snd (host_receive m (host_registry s))\<rparr>"
    using Suc.prems(1) c by (rule HostStep_Cons)
  have nt: "\<not> torn_down ?t" and len: "length (to_host ?t) = n"
    using Suc.prems c by (simp_all add: st)
  have r: "req_ids (to_host s) = req_ids [m] @ req_ids q"
    using c req_ids_append [of "[m]" q] by simp
  from Suc.IH [OF nt len] show ?case
    by (simp add: st resp_ids_append host_receive_answers r)
qed

lemma notified_receive:
  "notified (renderer_receive m r) = notified r @ filter is_notification [m]"
  by (cases m) simp_all

lemma next_id_receive: "next_id (renderer_receive m r) = next_id r"
  by (cases m) simp_all

lemma renderer_steps:
  "\<not> torn_down s \<Longrightarrow> length (to_renderer s) = n \<Longrightarrow>
     to_renderer (run (replicate n RendererStep) s) = [] \<and>
     \<not> torn_down (run (replicate n RendererStep) s) \<and>
     to_host (run (replicate n RendererStep) s) = to_host s \<and>
     next_id (rend (run (replicate n RendererStep) s)) = next_id (rend s) \<and>
     notified (rend (run (replicate n RendererStep) s)) =
       notified (rend s) @ filter is_notification (to_renderer s)"
proof (induction n arbitrary: s)
  case 0
  then show ?case by simp
next
  case (Suc n)
  then obtain m q where c: "to_renderer s = m # q"
    by (cases "to_renderer s") simp_all
  let ?t = "step RendererStep s"
  have st: "?t = s\<lparr>to_renderer := q, rend := renderer_receive m (rend s)\<rparr>"
    using Suc.prems(1) c by (rule RendererStep_Cons)
  have nt: "\<not> torn_down ?t" and len: "length (to_renderer ?t) = n"
    using Suc.prems c by (simp_all add: st)
  from Suc.IH [OF nt len] show ?case
    by (simp add: st c notified_receive next_id_receive)
qed

lemma settle_props:
  assumes nt: "\<not> torn_down s"
  shows "to_host (settle s) = []" and "to_renderer (settle s) = []"
    and "\<not> torn_down (settle s)" and "next_id (rend (settle s)) = next_id (rend s)"
proof -
  let ?h = "host_drain s"
  have h: "to_host ?h = [] \<and> \<not> torn_down ?h \<and> rend ?h = rend s"
    using host_steps [OF nt refl] by (simp add: host_drain_def)
  then have nh: "\<not> torn_down ?h" by simp
  have r: "to_renderer (settle s) = [] \<and> \<not> torn_down (settle s) \<and>
      to_host (settle s) = to_host ?h \<and> next_id (rend (settle s)) = next_id (rend ?h)"
    using renderer_steps [OF nh refl] by (simp add: settle_def renderer_drain_def)
  from h r show "to_host (settle s) = []" and "to_renderer (settle s) = []"
    and "\<not> torn_down (settle s)" and "next_id (rend (settle s)) = next_id (rend s)"
    by simp_all
qed

lemma settle_run: "\<exists>es. settle s = run es s"
proof -
  have "settle s = run (replicate (length (to_host s)) HostStep @
      replicate (length (to_renderer (host_drain s))) RendererStep) s"
    by (simp add: settle_def renderer_drain_def host_drain_def run_append)
  then show ?thesis ..
qed

lemma filter_absent: "i \<notin> fst ` set xs \<Longrightarrow> filter (\<lambda>x. fst x = i) xs = []"
  by (induction xs) auto

lemma one_outcome:
  "distinct (map fst xs) \<Longrightarrow> i \<in> fst ` set xs \<Longrightarrow>
     \<exists>r. map snd (filter (\<lambda>x. fst x = i) xs) = [r] \<and> r \<in> snd ` set xs"
proof (induction xs)
  case Nil
  then show ?case by simp
next
  case (Cons x xs)
  show ?case
  proof (cases "fst x = i")
    case True
    from Cons.prems(1) have "fst x \<notin> fst ` set xs"
      by simp
    with True have "filter (\<lambda>x. fst x = i) xs = []"
      by (simp add: filter_absent)
    with True show ?thesis by simp
  next
    case False
    with Cons.prems have d: "distinct (map fst xs)" and m: "i \<in> fst ` set xs"
      by auto
    from Cons.IH [OF d m] obtain r
      where "map snd (filter (\<lambda>x. fst x = i) xs) = [r]" and "r \<in> snd ` set xs"
      by (elim exE conjE)
    with False show ?thesis by simp
  qed
qed

section \<open>The bridge: the claims about calls, teardown and order\<close>

lemma reachable_inv:
  "s = run es (bridge_init reg) \<Longrightarrow> bridge_inv s \<and> answers_inv s"
  by (simp add: inv_run answers_inv_run bridge_inv_init answers_inv_init)

lemma outcomes_of_pending:
  assumes i: "bridge_inv s" and p: "i \<in> set (pending (rend s))"
  shows "outcomes_of i s = []"
proof -
  from i p have "i \<notin> fst ` set (outcomes (rend s))"
    by (auto simp: bridge_inv_def)
  then show ?thesis
    by (simp add: outcomes_of_def filter_absent)
qed

lemma outcomes_of_Teardown:
  assumes i: "bridge_inv s" and nt: "\<not> torn_down s" and p: "i \<in> set (pending (rend s))"
  shows "outcomes_of i (step Teardown s) = [Inl TransportClosedError]"
proof -
  let ?new = "map (\<lambda>rid. (rid, Inl TransportClosedError :: bridge_error + val)) (pending (rend s))"
  have old: "filter (\<lambda>x. fst x = i) (outcomes (rend s)) = []"
    using outcomes_of_pending [OF i p] by (simp add: outcomes_of_def)
  from i have d: "distinct (map fst ?new)"
    by (simp add: bridge_inv_def comp_def)
  from p have m: "i \<in> fst ` set ?new"
    by (simp add: image_comp comp_def)
  from one_outcome [OF d m] obtain r
    where r: "map snd (filter (\<lambda>x. fst x = i) ?new) = [r]" and "r \<in> snd ` set ?new"
    by (elim exE conjE)
  then have "r = Inl TransportClosedError"
    by auto
  with r old nt show ?thesis
    by (simp add: outcomes_of_def step_open transport_closed_def)
qed

lemma outcomes_of_settle:
  assumes i: "bridge_inv s" and a: "answers_inv s" and nt: "\<not> torn_down s"
    and l: "i < next_id (rend s)"
  shows "\<exists>r. outcomes_of i (settle s) = [r] \<and> r \<noteq> Inl TransportClosedError"
proof -
  obtain es where es: "settle s = run es s"
    using settle_run by blast
  have bi: "bridge_inv (settle s)" and ai: "answers_inv (settle s)"
    using i a by (simp_all add: es inv_run answers_inv_run)
  note sp = settle_props [OF nt]
  from bi sp have d: "distinct (map fst (outcomes (rend (settle s))))"
    and m: "fst ` set (outcomes (rend (settle s))) = {..<next_id (rend s)}"
    by (simp_all add: bridge_inv_def)
  from l m have mem: "i \<in> fst ` set (outcomes (rend (settle s)))"
    by simp
  from one_outcome [OF d mem] obtain r
    where r: "map snd (filter (\<lambda>x. fst x = i) (outcomes (rend (settle s)))) = [r]"
      and rs: "r \<in> snd ` set (outcomes (rend (settle s)))"
    by (elim exE conjE)
  from ai sp have "Inl TransportClosedError \<notin> snd ` set (outcomes (rend (settle s)))"
    by (simp add: answers_inv_def)
  with rs have "r \<noteq> Inl TransportClosedError"
    by blast
  with r show ?thesis
    by (auto simp: outcomes_of_def)
qed

lemma host_drain_answers:
  "\<not> torn_down t \<Longrightarrow>
     resp_ids (to_renderer (host_drain t)) = resp_ids (to_renderer t) @ req_ids (to_host t)"
  using host_steps [of t "length (to_host t)"] by (simp add: host_drain_def)

text \<open>
  Claim C7. In every state \<open>s\<close> that the bridge reaches from its start: every request id
  allocated so far is in exactly one place (a request on its way, a response on its way, or
  a result handed to the caller), so no id has two responses; the id of the next call is
  \<open>next_id\<close>, which none of them is, so no id is reused. The host answers the requests of
  its queue one for one, in order and with their ids. While the transport is up, letting
  host and renderer empty their queues hands every call exactly one result, which is the
  host's response and not a TransportClosedError. A call that is pending when the transport
  is torn down has no result before, and the TransportClosedError as its only result ever
  after: no response is delivered for it.
\<close>

theorem invoke_request_yields_one_response:
  assumes s: "s = run es (bridge_init reg)"
  shows
    "distinct (req_ids (to_host s) @ resp_ids (to_renderer s) @ map fst (outcomes (rend s))) \<and>
     set (req_ids (to_host s) @ resp_ids (to_renderer s) @ map fst (outcomes (rend s)))
       = {..<next_id (rend s)} \<and>
     req_ids [fst (issue_call obj meth args (rend s))] = [next_id (rend s)] \<and>
     (\<not> torn_down t \<longrightarrow>
        resp_ids (to_renderer (host_drain t)) = resp_ids (to_renderer t) @ req_ids (to_host t)) \<and>
     (\<not> torn_down s \<longrightarrow>
        (\<forall>i<next_id (rend s).
           \<exists>r. outcomes_of i (settle s) = [r] \<and> r \<noteq> Inl TransportClosedError)) \<and>
     (\<not> torn_down s \<longrightarrow>
        (\<forall>i\<in>set (pending (rend s)).
           outcomes_of i s = [] \<and>
           (\<forall>es'. outcomes_of i (run (Teardown # es') s) = [Inl TransportClosedError])))"
proof -
  from s have i: "bridge_inv s" and a: "answers_inv s"
    by (simp_all add: reachable_inv)
  have after: "run (Teardown # es') s = step Teardown s" if "\<not> torn_down s" for es'
    using that by (simp add: run_torn_down step_open)
  from i have "distinct (req_ids (to_host s) @ resp_ids (to_renderer s) @ map fst (outcomes (rend s)))"
    and "set (req_ids (to_host s) @ resp_ids (to_renderer s) @ map fst (outcomes (rend s)))
       = {..<next_id (rend s)}"
    by (simp_all add: bridge_inv_def)
  moreover have "req_ids [fst (issue_call obj meth args (rend s))] = [next_id (rend s)]"
    by (simp add: issue_call_def)
  moreover have "\<not> torn_down t \<longrightarrow>
        resp_ids (to_renderer (host_drain t)) = resp_ids (to_renderer t) @ req_ids (to_host t)"
    by (simp add: host_drain_answers)
  moreover have "\<not> torn_down s \<longrightarrow>
        (\<forall>i<next_id (rend s).
           \<exists>r. outcomes_of i (settle s) = [r] \<and> r \<noteq> Inl TransportClosedError)"
    using outcomes_of_settle [OF i a] by blast
  moreover have "\<not> torn_down s \<longrightarrow>
        (\<forall>i\<in>set (pending (rend s)).
           outcomes_of i s = [] \<and>
           (\<forall>es'. outcomes_of i (run (Teardown # es') s) = [Inl TransportClosedError]))"
    using outcomes_of_pending [OF i] outcomes_of_Teardown [OF i] after by simp
  ultimately show ?thesis by blast
qed

theorem invoke_request_yields_one_response_witness:
  "\<not> torn_down (run [Call ''backend'' ''incrementCount'' [], Call ''backend'' ''sendToBackend'' [VString ''a''], HostStep]
        (bridge_init [(''backend'', BackendObject_new)])) \<and>
   next_id (rend (run [Call ''backend'' ''incrementCount'' [], Call ''backend'' ''sendToBackend'' [VString ''a''], HostStep]
        (bridge_init [(''backend'', BackendObject_new)]))) = 2 \<and>
   pending (rend (run [Call ''backend'' ''incrementCount'' [], Call ''backend'' ''sendToBackend'' [VString ''a''], HostStep]
        (bridge_init [(''backend'', BackendObject_new)]))) = [0, 1] \<and>
   (\<exists>r. outcomes_of 0 (settle (run [Call ''backend'' ''incrementCount'' [], Call ''backend'' ''sendToBackend'' [VString ''a''], HostStep]
        (bridge_init [(''backend'', BackendObject_new)]))) = [r] \<and> r \<noteq> Inl TransportClosedError) \<and>
   (\<exists>r. outcomes_of 1 (settle (run [Call ''backend'' ''incrementCount'' [], Call ''backend'' ''sendToBackend'' [VString ''a''], HostStep]
        (bridge_init [(''backend'', BackendObject_new)]))) = [r] \<and> r \<noteq> Inl TransportClosedError) \<and>
   outcomes_of 1 (run [Call ''backend'' ''incrementCount'' [], Call ''backend'' ''sendToBackend'' [VString ''a''], HostStep]
        (bridge_init [(''backend'', BackendObject_new)])) = [] \<and>
   outcomes_of 1 (run [Teardown, HostStep, RendererStep] (run [Call ''backend'' ''incrementCount'' [], Call ''backend'' ''sendToBackend'' [VString ''a''], HostStep]
        (bridge_init [(''backend'', BackendObject_new)]))) = [Inl TransportClosedError] \<and>
   resp_ids (to_renderer (host_drain (run [Call ''backend'' ''incrementCount'' [], Call ''backend'' ''sendToBackend'' [VString ''a''], HostStep]
        (bridge_init [(''backend'', BackendObject_new)])))) = [0, 1]"
proof -
  let ?es = "[Call ''backend'' ''incrementCount'' [],
    Call ''backend'' ''sendToBackend'' [VString ''a''], HostStep]"
  let ?reg = "[(''backend'', BackendObject_new)]"
  let ?s = "run ?es (bridge_init ?reg)"
  note T = invoke_request_yields_one_response
    [where es = ?es and reg = ?reg and t = ?s, OF refl]
  have nt: "\<not> torn_down ?s" and n: "next_id (rend ?s) = 2" and p: "pending (rend ?s) = [0, 1]"
    and h: "resp_ids (to_renderer ?s) @ req_ids (to_host ?s) = [0, 1]"
    by code_simp+
  from T nt have a: "\<forall>i<next_id (rend ?s).
      \<exists>r. outcomes_of i (settle ?s) = [r] \<and> r \<noteq> Inl TransportClosedError"
    and b: "\<forall>i\<in>set (pending (rend ?s)). outcomes_of i ?s = [] \<and>
      (\<forall>es'. outcomes_of i (run (Teardown # es') ?s) = [Inl TransportClosedError])"
    and d: "resp_ids (to_renderer (host_drain ?s)) =
      resp_ids (to_renderer ?s) @ req_ids (to_host ?s)"
    by blast+
  have l0: "0 < next_id (rend ?s)" and l1: "1 < next_id (rend ?s)"
    unfolding n by simp_all
  have m1: "1 \<in> set (pending (rend ?s))"
    unfolding p by simp
  from a l0 l1 have "\<exists>r. outcomes_of 0 (settle ?s) = [r] \<and> r \<noteq> Inl TransportClosedError"
    and "\<exists>r. outcomes_of 1 (settle ?s) = [r] \<and> r \<noteq> Inl TransportClosedError"
    by blast+
  moreover from b m1 have "outcomes_of 1 ?s = []"
    and "outcomes_of 1 (run [Teardown, HostStep, RendererStep] ?s) = [Inl TransportClosedError]"
    by blast+
  moreover have "resp_ids (to_renderer (host_drain ?s)) = [0, 1]"
    unfolding d h ..
  ultimately show ?thesis using nt n p by blast
qed

text \<open>
  Claim C8. When the transport is torn down in a state the bridge reaches from its start,
  every pending call is resolved with a TransportClosedError and with nothing else, no
  pending entry and no message in flight remains, and nothing that happens afterwards
  changes that.
\<close>

theorem teardown_resolves_pending:
  assumes s: "s = run es (bridge_init reg)" and nt: "\<not> torn_down s"
  shows
    "pending (rend (step Teardown s)) = [] \<and>
     to_host (step Teardown s) = [] \<and> to_renderer (step Teardown s) = [] \<and>
     torn_down (step Teardown s) \<and>
     (\<forall>i\<in>set (pending (rend s)).
        outcomes_of i (step Teardown s) = [Inl TransportClosedError]) \<and>
     (\<forall>es'. run es' (step Teardown s) = step Teardown s)"
proof -
  from s have i: "bridge_inv s"
    by (simp add: reachable_inv)
  have td: "torn_down (step Teardown s)"
    using nt by (simp add: step_open)
  from nt have "pending (rend (step Teardown s)) = []"
    and "to_host (step Teardown s) = []" and "to_renderer (step Teardown s) = []"
    by (simp_all add: step_open transport_closed_def)
  moreover have "\<forall>i\<in>set (pending (rend s)).
        outcomes_of i (step Teardown s) = [Inl TransportClosedError]"
    using outcomes_of_Teardown [OF i nt] by blast
  moreover have "\<forall>es'. run es' (step Teardown s) = step Teardown s"
    using td by (simp add: run_torn_down)
  ultimately show ?thesis using td by blast
qed

theorem teardown_resolves_pending_witness:
  "\<not> torn_down (run [Call ''backend'' ''incrementCount'' [], Call ''backend'' ''sendToBackend'' [VString ''a'']]
        (bridge_init [(''backend'', BackendObject_new)])) \<and>
   pending (rend (run [Call ''backend'' ''incrementCount'' [], Call ''backend'' ''sendToBackend'' [VString ''a'']]
        (bridge_init [(''backend'', BackendObject_new)]))) = [0, 1] \<and>
   pending (rend (step Teardown (run [Call ''backend'' ''incrementCount'' [], Call ''backend'' ''sendToBackend'' [VString ''a'']]
        (bridge_init [(''backend'', BackendObject_new)])))) = [] \<and>
   to_host (step Teardown (run [Call ''backend'' ''incrementCount'' [], Call ''backend'' ''sendToBackend'' [VString ''a'']]
        (bridge_init [(''backend'', BackendObject_new)]))) = [] \<and>
   to_renderer (step Teardown (run [Call ''backend'' ''incrementCount'' [], Call ''backend'' ''sendToBackend'' [VString ''a'']]
        (bridge_init [(''backend'', BackendObject_new)]))) = [] \<and>
   outcomes_of 0 (step Teardown (run [Call ''backend'' ''incrementCount'' [], Call ''backend'' ''sendToBackend'' [VString ''a'']]
        (bridge_init [(''backend'', BackendObject_new)]))) = [Inl TransportClosedError] \<and>
   outcomes_of 1 (step Teardown (run [Call ''backend'' ''incrementCount'' [], Call ''backend'' ''sendToBackend'' [VString ''a'']]
        (bridge_init [(''backend'', BackendObject_new)]))) = [Inl TransportClosedError] \<and>
   run [HostStep, RendererStep] (step Teardown (run [Call ''backend'' ''incrementCount'' [], Call ''backend'' ''sendToBackend'' [VString ''a'']]
        (bridge_init [(''backend'', BackendObject_new)]))) = step Teardown (run [Call ''backend'' ''incrementCount'' [], Call ''backend'' ''sendToBackend'' [VString ''a'']]
        (bridge_init [(''backend'', BackendObject_new)]))"
proof -
  let ?es = "[Call ''backend'' ''incrementCount'' [],
    Call ''backend'' ''sendToBackend'' [VString ''a'']]"
  let ?reg = "[(''backend'', BackendObject_new)]"
  let ?s = "run ?es (bridge_init ?reg)"
  have nt: "\<not> torn_down ?s" and p: "pending (rend ?s) = [0, 1]"
    by code_simp+
  note T = teardown_resolves_pending [where es = ?es and reg = ?reg, OF refl nt]
  from T have b: "\<forall>i\<in>set (pending (rend ?s)).
      outcomes_of i (step Teardown ?s) = [Inl TransportClosedError]"
    by blast
  have m0: "0 \<in> set (pending (rend ?s))" and m1: "1 \<in> set (pending (rend ?s))"
    unfolding p by simp_all
  from b m0 m1 have "outcomes_of 0 (step Teardown ?s) = [Inl TransportClosedError]"
    and "outcomes_of 1 (step Teardown ?s) = [Inl TransportClosedError]"
    by blast+
  with T nt p show ?thesis by blast
qed

lemma map_of_store:
  "map_of (store name b' reg) = (\<lambda>n. if n = name \<and> n \<in> fst ` set reg then Some b' else map_of reg n)"
  by (induction reg) (auto simp: store_def fun_eq_iff)

lemma lookup_store:
  "lookup name reg = Inr b \<Longrightarrow> lookup name (store name b' reg) = Inr b'"
  by (auto simp: lookup_def map_of_store split: option.splits dest: map_of_SomeD intro: rev_image_eqI)

lemma host_apply_found:
  "lookup name reg = Inr b \<Longrightarrow>
     host_apply name f reg = (store name (apply_op f b) reg, published name b (apply_op f b))"
  by (simp add: host_apply_def Let_def)

lemma published_setMessage:
  "m_message b \<noteq> msg \<Longrightarrow>
     published name b (setMessage msg b) = [property_changed name ''message'' (VString msg)]"
  by (simp add: published_def setMessage_changed)

lemma published_setCount:
  "m_count b \<noteq> c \<Longrightarrow>
     published name b (setCount c b) = [property_changed name ''count'' (VInt c)]"
  by (simp add: published_def setCount_changed)

lemma renderer_drain_notified:
  "\<not> torn_down s \<Longrightarrow>
     notified (rend (renderer_drain s)) = notified (rend s) @ filter is_notification (to_renderer s)"
  using renderer_steps [of s "length (to_renderer s)"] by (simp add: renderer_drain_def)

lemma HostCode_found:
  "\<not> torn_down s \<Longrightarrow> lookup name (host_registry s) = Inr b \<Longrightarrow>
     step (HostCode name f) s =
       s\<lparr>host_registry := store name (apply_op f b) (host_registry s),
         to_renderer := to_renderer s @ published name b (apply_op f b)\<rparr>"
  by (simp add: step_open host_apply_found)

lemma two_setters_enqueued:
  assumes nt: "\<not> torn_down s" and l: "lookup name (host_registry s) = Inr b"
    and m: "m_message b \<noteq> msg" and c: "m_count b \<noteq> c"
  shows "to_renderer (run [HostCode name (SetMessage msg), HostCode name (SetCount c)] s) =
      to_renderer s @
        [property_changed name ''message'' (VString msg), property_changed name ''count'' (VInt c)]"
    and "\<not> torn_down (run [HostCode name (SetMessage msg), HostCode name (SetCount c)] s)"
    and "rend (run [HostCode name (SetMessage msg), HostCode name (SetCount c)] s) = rend s"
proof -
  let ?b = "setMessage msg b"
  let ?t = "step (HostCode name (SetMessage msg)) s"
  have t: "?t = s\<lparr>host_registry := store name ?b (host_registry s),
         to_renderer := to_renderer s @ [property_changed name ''message'' (VString msg)]\<rparr>"
    using HostCode_found [OF nt l, of "SetMessage msg"] m by (simp add: published_setMessage)
  have nt': "\<not> torn_down ?t"
    using nt by (simp add: t)
  have l': "lookup name (host_registry ?t) = Inr ?b"
    using l by (simp add: t lookup_store)
  have c': "m_count ?b \<noteq> c"
    using c by (simp add: setMessage_def emit_def)
  have u: "step (HostCode name (SetCount c)) ?t =
      ?t\<lparr>host_registry := store name (setCount c ?b) (host_registry ?t),
         to_renderer := to_renderer ?t @ [property_changed name ''count'' (VInt c)]\<rparr>"
    using HostCode_found [OF nt' l', of "SetCount c"] c' by (simp add: published_setCount)
  have r: "run [HostCode name (SetMessage msg), HostCode name (SetCount c)] s =
      step (HostCode name (SetCount c)) ?t"
    by simp
  show "to_renderer (run [HostCode name (SetMessage msg), HostCode name (SetCount c)] s) =
      to_renderer s @
        [property_changed name ''message'' (VString msg), property_changed name ''count'' (VInt c)]"
    unfolding r u by (simp add: t)
  show "\<not> torn_down (run [HostCode name (SetMessage msg), HostCode name (SetCount c)] s)"
    unfolding r u using nt by (simp add: t)
  show "rend (run [HostCode name (SetMessage msg), HostCode name (SetCount c)] s) = rend s"
    unfolding r u by (simp add: t)
qed

text \<open>
  Claim C5. \<open>setMessage\<close> and then \<open>setCount\<close>, each with a new value, emit
  \<open>messageChanged\<close> and then \<open>countChanged\<close>. When the host's code runs the two on the
  registered object \<open>backend\<close>, the two property-changed messages are enqueued in that order
  behind what is already on its way, and the renderer's listeners are notified in that
  order. In general the renderer's listeners are notified of the notifications of the queue
  in the order of the queue.
\<close>

theorem setMessage_then_setCount_order:
  "(m_message b \<noteq> msg \<and> m_count b \<noteq> c \<longrightarrow>
      emitted (setCount c (setMessage msg b)) =
        emitted b @ [messageChanged msg, countChanged c]) \<and>
   (\<not> torn_down s \<and> lookup ''backend'' (host_registry s) = Inr b \<and>
    m_message b \<noteq> msg \<and> m_count b \<noteq> c \<longrightarrow>
      to_renderer (run [HostCode ''backend'' (SetMessage msg), HostCode ''backend'' (SetCount c)] s) =
        to_renderer s @
          [property_changed ''backend'' ''message'' (VString msg),
           property_changed ''backend'' ''count'' (VInt c)] \<and>
      notified (rend (renderer_drain
          (run [HostCode ''backend'' (SetMessage msg), HostCode ''backend'' (SetCount c)] s))) =
        notified (rend s) @ filter is_notification (to_renderer s) @
          [property_changed ''backend'' ''message'' (VString msg),
           property_changed ''backend'' ''count'' (VInt c)]) \<and>
   (\<not> torn_down s \<longrightarrow>
      notified (rend (renderer_drain s)) =
        notified (rend s) @ filter is_notification (to_renderer s))"
proof (intro conjI impI)
  assume "m_message b \<noteq> msg \<and> m_count b \<noteq> c"
  then show "emitted (setCount c (setMessage msg b)) =
        emitted b @ [messageChanged msg, countChanged c]"
    by (simp add: setMessage_def setCount_def emit_def)
next
  assume a: "\<not> torn_down s \<and> lookup ''backend'' (host_registry s) = Inr b \<and>
    m_message b \<noteq> msg \<and> m_count b \<noteq> c"
  let ?t = "run [HostCode ''backend'' (SetMessage msg), HostCode ''backend'' (SetCount c)] s"
  from a have a1: "\<not> torn_down s" and a2: "lookup ''backend'' (host_registry s) = Inr b"
    and a3: "m_message b \<noteq> msg" and a4: "m_count b \<noteq> c"
    by simp_all
  note two = two_setters_enqueued [OF a1 a2 a3 a4]
  have q: "to_renderer ?t = to_renderer s @
          [property_changed ''backend'' ''message'' (VString msg),
           property_changed ''backend'' ''count'' (VInt c)]"
    by (rule two(1))
  have nt: "\<not> torn_down ?t"
    by (rule two(2))
  have r: "rend ?t = rend s"
    by (rule two(3))
  from q show "to_renderer ?t = to_renderer s @
          [property_changed ''backend'' ''message'' (VString msg),
           property_changed ''backend'' ''count'' (VInt c)]" .
  show "notified (rend (renderer_drain ?t)) =
        notified (rend s) @ filter is_notification (to_renderer s) @
          [property_changed ''backend'' ''message'' (VString msg),
           property_changed ''backend'' ''count'' (VInt c)]"
    unfolding renderer_drain_notified [OF nt] q r by simp
next
  assume "\<not> torn_down s"
  then show "notified (rend (renderer_drain s)) =
        notified (rend s) @ filter is_notification (to_renderer s)"
    by (rule renderer_drain_notified)
qed

theorem setMessage_then_setCount_order_witness:
  "m_message BackendObject_new \<noteq> ''hi'' \<and> m_count BackendObject_new \<noteq> 5 \<and>
   \<not> torn_down (bridge_init [(''backend'', BackendObject_new)]) \<and>
   lookup ''backend'' (host_registry (bridge_init [(''backend'', BackendObject_new)])) =
     Inr BackendObject_new \<and>
   emitted (setCount 5 (setMessage ''hi'' BackendObject_new)) =
     [messageChanged ''hi'', countChanged 5] \<and>
   notified (rend (renderer_drain
       (run [HostCode ''backend'' (SetMessage ''hi''), HostCode ''backend'' (SetCount 5)]
         (bridge_init [(''backend'', BackendObject_new)])))) =
     [property_changed ''backend'' ''message'' (VString ''hi''),
      property_changed ''backend'' ''count'' (VInt 5)]"
proof -
  let ?s = "bridge_init [(''backend'', BackendObject_new)]"
  have m: "m_message BackendObject_new \<noteq> ''hi''" and c: "m_count BackendObject_new \<noteq> 5"
    and e: "emitted BackendObject_new = []"
    by (simp_all add: BackendObject_new_def)
  have nt: "\<not> torn_down ?s" and l: "lookup ''backend'' (host_registry ?s) = Inr BackendObject_new"
    and q: "to_renderer ?s = []" and n: "notified (rend ?s) = []"
    by (simp_all add: bridge_init_def lookup_def renderer_new_def)
  from m c e nt l q n
    setMessage_then_setCount_order [of BackendObject_new "''hi''" 5 ?s]
  show ?thesis by simp
qed

text \<open>
  Claim C6. The constructed object has the message \<open>Hello from C++ backend!\<close> and the count
  0 and has emitted nothing; \<open>main\<close> registers it as \<open>backend\<close>; the schema built from it,
  the init-response of the host before any operation, and the renderer's cache after that
  response all show these two values.
\<close>

theorem fresh_object_and_init_snapshot:
  "message BackendObject_new = ''Hello from C++ backend!'' \<and>
   count BackendObject_new = 0 \<and>
   emitted BackendObject_new = [] \<and>
   main_registry = Inr [(''backend'', BackendObject_new)] \<and>
   properties (describe BackendObject_new) =
     [(''message'', VString ''Hello from C++ backend!''), (''count'', VInt 0)] \<and>
   to_renderer (run [Init, HostStep] (bridge_init [(''backend'', BackendObject_new)])) =
     [init_response [(''backend'', describe BackendObject_new)]] \<and>
   map_of (cache (rend (run [Init, HostStep, RendererStep]
       (bridge_init [(''backend'', BackendObject_new)])))) (''backend'', ''count'') = Some (VInt 0) \<and>
   map_of (cache (rend (run [Init, HostStep, RendererStep]
       (bridge_init [(''backend'', BackendObject_new)])))) (''backend'', ''message'') =
     Some (VString ''Hello from C++ backend!'')"
  by (simp add: message_def count_def BackendObject_new_def main_registry_def register_object_def
      describe_def step_def bridge_init_def renderer_new_def)

end
